theory Spec2Isabelle
  imports Complex_Main "HOL-Library.Product_Lexorder" "HOL-Library.Multiset"
begin

section \<open>Weekly power metrics for recorded rides\<close>

text \<open>
  A shallow embedding of \<^verbatim>\<open>weekly_metrics.py\<close>. Python's \<^verbatim>\<open>float\<close> is
  modelled by \<^typ>\<open>real\<close>: every arithmetic operation is exact, so rounding, overflow
  and the special values of IEEE doubles are outside the model. Python's \<^verbatim>\<open>int\<close>
  is \<^typ>\<open>int\<close> (or \<^typ>\<open>nat\<close> for a length). An exception is a value
  \<open>Inl e\<close> of a sum type.
\<close>

subsection \<open>Exceptions\<close>

datatype error = StatisticsError | ZeroDivisionError

definition bind_result :: "error + 'a \<Rightarrow> ('a \<Rightarrow> error + 'b) \<Rightarrow> error + 'b" where
  "bind_result m f = (case m of Inl e \<Rightarrow> Inl e | Inr v \<Rightarrow> f v)"

subsection \<open>The library functions the module calls\<close>

text \<open>
  \<^verbatim>\<open>statistics.mean\<close> raises \<^verbatim>\<open>StatisticsError\<close> on an empty sequence and
  otherwise returns the sum divided by the number of values.
\<close>

definition mean :: "real list \<Rightarrow> error + real" where
  "mean data = (if data = [] then Inl StatisticsError
                else Inr (sum_list data / real (length data)))"

text \<open>
  A naive \<^verbatim>\<open>datetime\<close>, with the fields of Python's class. Two of them compare
  as the tuples of their fields do (lexicographically).
\<close>

record datetime =
  year :: int
  month :: int
  day :: int
  hour :: int
  minute :: int
  second :: int
  microsecond :: int

definition dt_key :: "datetime \<Rightarrow> int \<times> int \<times> int \<times> int \<times> int \<times> int \<times> int" where
  "dt_key t = (year t, month t, day t, hour t, minute t, second t, microsecond t)"

definition is_leap :: "int \<Rightarrow> bool" where
  "is_leap y = (y mod 4 = 0 \<and> (y mod 100 \<noteq> 0 \<or> y mod 400 = 0))"

definition days_before_year :: "int \<Rightarrow> int" where
  "days_before_year y = (let z = y - 1 in z * 365 + z div 4 - z div 100 + z div 400)"

definition days_in_month :: "int \<Rightarrow> int \<Rightarrow> int" where
  "days_in_month y m =
     (if m = 2 then (if is_leap y then 29 else 28)
      else if m = 4 \<or> m = 6 \<or> m = 9 \<or> m = 11 then 30 else 31)"

definition days_before_month :: "int \<Rightarrow> int \<Rightarrow> int" where
  "days_before_month y m = sum_list (map (days_in_month y) [1..m - 1])"

definition ymd2ord :: "int \<Rightarrow> int \<Rightarrow> int \<Rightarrow> int" where
  "ymd2ord y m d = days_before_year y + days_before_month y m + d"

definition toordinal :: "datetime \<Rightarrow> int" where
  "toordinal t = ymd2ord (year t) (month t) (day t)"

text \<open>
  The ISO calendar of a date: the Monday that starts week 1 of a year is the Monday of
  the week that holds the year's first Thursday.
\<close>

definition isoweek1monday :: "int \<Rightarrow> int" where
  "isoweek1monday y =
     (let firstday = ymd2ord y 1 1;
          firstweekday = (firstday + 6) mod 7;
          week1monday = firstday - firstweekday
      in if firstweekday > 3 then week1monday + 7 else week1monday)"

definition isocalendar :: "datetime \<Rightarrow> int \<times> int \<times> int" where
  "isocalendar t =
     (let y = year t;
          today = toordinal t;
          week = (today - isoweek1monday y) div 7;
          wday = (today - isoweek1monday y) mod 7
      in if week < 0 then
           (y - 1, (today - isoweek1monday (y - 1)) div 7 + 1,
                   (today - isoweek1monday (y - 1)) mod 7 + 1)
         else if week \<ge> 52 \<and> today \<ge> isoweek1monday (y + 1) then (y + 1, 1, wday + 1)
         else (y, week + 1, wday + 1))"

text \<open>
  \<^verbatim>\<open>(a - b).total_seconds()\<close>: the difference of two instants, in seconds.
\<close>

definition microseconds_of :: "datetime \<Rightarrow> int" where
  "microseconds_of t =
     ((toordinal t * 86400 + hour t * 3600 + minute t * 60 + second t) * 1000000
      + microsecond t)"

definition total_seconds :: "datetime \<Rightarrow> datetime \<Rightarrow> real" where
  "total_seconds a b = real_of_int (microseconds_of a - microseconds_of b) / 1000000"

text \<open>
  \<^verbatim>\<open>str(n)\<close> and \<^verbatim>\<open>format(n, "02d")\<close> of an integer: decimal digits, a minus
  sign for a negative number, and for the format zeros after the sign up to a width of 2.
\<close>

fun digits_of :: "nat \<Rightarrow> string" where
  "digits_of n =
     (if n < 10 then [char_of (48 + n)]
      else digits_of (n div 10) @ [char_of (48 + n mod 10)])"

declare digits_of.simps [simp del]

definition str_int :: "int \<Rightarrow> string" where
  "str_int n = (if n < 0 then CHR ''-'' # digits_of (nat (- n)) else digits_of (nat n))"

definition zero_fill :: "nat \<Rightarrow> string \<Rightarrow> string" where
  "zero_fill w s = replicate (w - length s) CHR ''0'' @ s"

definition format_02d :: "int \<Rightarrow> string" where
  "format_02d n =
     (if n < 0 then CHR ''-'' # zero_fill 1 (digits_of (nat (- n)))
      else zero_fill 2 (digits_of (nat n)))"

text \<open>\<^verbatim>\<open>os.path.basename\<close>: what follows the last slash.\<close>

fun basename :: "string \<Rightarrow> string" where
  "basename [] = []"
| "basename (c # cs) = (if CHR ''/'' \<in> set cs then basename cs
                        else if c = CHR ''/'' then cs else c # cs)"

subsection \<open>Record Extractor\<close>

text \<open>
  A decoded \<^verbatim>\<open>record\<close> message, reduced to the two fields the module reads;
  \<open>None\<close> stands for a field that is absent or holds \<^verbatim>\<open>None\<close>. The decoder is a
  collaborator of the module, so \<open>extract_records\<close> takes the messages it yields.
\<close>

record message =
  timestamp :: "datetime option"
  power :: "real option"

type_synonym sample = "datetime \<times> real"

fun collect_records :: "message list \<Rightarrow> sample list" where
  "collect_records [] = []"
| "collect_records (m # ms) =
     (if timestamp m = None \<or> power m = None then collect_records ms
      else (the (timestamp m), the (power m)) # collect_records ms)"

text \<open>\<^verbatim>\<open>sorted\<close> is stable, as \<^const>\<open>sort_key\<close> is.\<close>

definition extract_records :: "message list \<Rightarrow> sample list" where
  "extract_records msgs = sort_key (\<lambda>item. dt_key (fst item)) (collect_records msgs)"

subsection \<open>Metrics Calculator\<close>

text \<open>The slice \<^verbatim>\<open>values[start : stop]\<close> for \<open>0 \<le> start\<close> and \<open>0 \<le> stop\<close>.\<close>

definition slice :: "'a list \<Rightarrow> int \<Rightarrow> int \<Rightarrow> 'a list" where
  "slice xs start stop = take (nat (stop - start)) (drop (nat start) xs)"

fun rolling_loop :: "real list \<Rightarrow> int \<Rightarrow> nat list \<Rightarrow> error + real list" where
  "rolling_loop values window [] = Inr []"
| "rolling_loop values window (idx # rest) =
     (let start = int idx - window + 1 in
      if start < 0 then rolling_loop values window rest
      else if window = 0 then Inl ZeroDivisionError
      else bind_result (rolling_loop values window rest)
             (\<lambda>ys. Inr (sum_list (slice values start (int idx + 1)) / real_of_int window # ys)))"

definition rolling_average :: "real list \<Rightarrow> int \<Rightarrow> error + real list" where
  "rolling_average values window = rolling_loop values window [0..<length values]"

text \<open>
  In \<^verbatim>\<open>_normalized_power\<close> the fourth power \<^verbatim>\<open>value**4\<close> and the power
  \<^verbatim>\<open>** 0.25\<close> are exact here. On doubles both are rounded, and \<^verbatim>\<open>value**4\<close>
  raises \<^verbatim>\<open>OverflowError\<close> when the result exceeds the largest double (a rolling
  average of about \<open>10\<^sup>7\<^sup>8\<close> watts): that exception has no branch in this model, which
  therefore says nothing about exact equality of rounded results or about overflow.
\<close>

definition normalized_power :: "real list \<Rightarrow> error + real" where
  "normalized_power powers =
     bind_result (rolling_average powers 30) (\<lambda>rolling_avgs.
       if rolling_avgs = [] then (if powers \<noteq> [] then mean powers else Inr 0)
       else bind_result (mean (map (\<lambda>v. v ^ 4) rolling_avgs))
              (\<lambda>fourth_power_avg. Inr (fourth_power_avg powr 0.25)))"

definition noncoasting_average :: "real list \<Rightarrow> error + real" where
  "noncoasting_average powers =
     (let nonzero = filter (\<lambda>p. p > 0) powers
      in if nonzero \<noteq> [] then mean nonzero else Inr 0)"

fun energy_loop :: "(sample \<times> sample) list \<Rightarrow> real \<Rightarrow> real" where
  "energy_loop [] energy_joules = energy_joules"
| "energy_loop (((time_prev, power_prev), (time_curr, _)) # rest) energy_joules =
     (let delta = total_seconds time_curr time_prev in
      if delta \<le> 0 then energy_loop rest energy_joules
      else energy_loop rest (energy_joules + power_prev * delta))"

definition ride_energy_kj :: "sample list \<Rightarrow> real" where
  "ride_energy_kj records =
     (if length records < 2 then 0
      else energy_loop (zip records (drop 1 records)) 0 / 1000)"

subsection \<open>Ride Analyzer\<close>

record ride =
  source_file :: string
  start_time :: datetime
  avg_watts :: real
  avg_np :: real
  avg_noncoasting_watts :: real
  total_kj :: real

text \<open>
  \<open>analyze_ride\<close> takes the path and the messages decoded from the file at that path.
  \<^verbatim>\<open>timestamps[0]\<close> is read only where the records are not empty.
\<close>

definition analyze_ride :: "string \<Rightarrow> message list \<Rightarrow> error + ride option" where
  "analyze_ride fit_path msgs =
     (let records = extract_records msgs in
      if records = [] then Inr None
      else
        let timestamps = map fst records; powers = map snd records in
        bind_result (mean powers) (\<lambda>avg_power.
        bind_result (normalized_power powers) (\<lambda>np.
        bind_result (noncoasting_average powers) (\<lambda>nc.
          Inr (Some \<lparr>source_file = basename fit_path, start_time = hd timestamps,
                     ride.avg_watts = avg_power, ride.avg_np = np,
                     ride.avg_noncoasting_watts = nc,
                     ride.total_kj = ride_energy_kj records\<rparr>)))))"

subsection \<open>Weekly Aggregator\<close>

type_synonym week_key = "int \<times> int"

definition week_key_of :: "ride \<Rightarrow> week_key" where
  "week_key_of r = (let iso_calendar = isocalendar (start_time r)
                    in (fst iso_calendar, fst (snd iso_calendar)))"

text \<open>
  The \<^verbatim>\<open>defaultdict(list)\<close> is an association list in insertion order, one entry
  for each key; \<open>append_group\<close> is \<^verbatim>\<open>grouped[week_key].append(ride)\<close>.
\<close>

fun append_group :: "(week_key \<times> ride list) list \<Rightarrow> week_key \<Rightarrow> ride \<Rightarrow> (week_key \<times> ride list) list" where
  "append_group [] k r = [(k, [r])]"
| "append_group ((k', rs) # grouped) k r =
     (if k' = k then (k', rs @ [r]) # grouped else (k', rs) # append_group grouped k r)"

definition group_by_week :: "ride list \<Rightarrow> (week_key \<times> ride list) list" where
  "group_by_week rides = foldl (\<lambda>grouped r. append_group grouped (week_key_of r) r) [] rides"

definition private_mean :: "real list \<Rightarrow> error + real" where
  "private_mean values = (if values \<noteq> [] then mean values else Inr 0)"

record summary =
  week :: string
  avg_watts :: real
  avg_np :: real
  avg_noncoasting_watts :: real
  ride_count :: nat
  total_kj :: real

definition summarize_week :: "week_key \<Rightarrow> ride list \<Rightarrow> error + summary" where
  "summarize_week k rides =
     bind_result (private_mean (map ride.avg_watts rides)) (\<lambda>w.
     bind_result (private_mean (map ride.avg_np rides)) (\<lambda>np.
     bind_result (private_mean (map ride.avg_noncoasting_watts rides)) (\<lambda>nc.
       Inr \<lparr>week = str_int (fst k) @ ''-W'' @ format_02d (snd k),
            avg_watts = w, avg_np = np, avg_noncoasting_watts = nc,
            ride_count = length rides,
            total_kj = sum_list (map ride.total_kj rides)\<rparr>)))"

subsection \<open>The run over a directory\<close>

text \<open>
  \<open>summarize_directory\<close> takes the \<^verbatim>\<open>.fit\<close> paths in the order the source sorts
  them into, each with the messages decoded from it; listing the directory and writing
  the CSV file are input and output around this computation. In
  \<^verbatim>\<open>sorted(grouped.items())\<close> the keys are distinct, so the key decides every
  comparison of two items.
\<close>

fun collect_rides :: "(string \<times> message list) list \<Rightarrow> error + ride list" where
  "collect_rides [] = Inr []"
| "collect_rides ((fit_path, msgs) # fit_files) =
     bind_result (analyze_ride fit_path msgs) (\<lambda>ride_metrics.
     bind_result (collect_rides fit_files) (\<lambda>rides.
       Inr (case ride_metrics of None \<Rightarrow> rides | Some r \<Rightarrow> r # rides)))"

fun summarize_all :: "(week_key \<times> ride list) list \<Rightarrow> error + summary list" where
  "summarize_all [] = Inr []"
| "summarize_all ((k, rides) # items) =
     bind_result (summarize_week k rides) (\<lambda>row.
     bind_result (summarize_all items) (\<lambda>rows. Inr (row # rows)))"

definition weekly_summaries :: "ride list \<Rightarrow> error + summary list" where
  "weekly_summaries rides = summarize_all (sort_key fst (group_by_week rides))"

definition summarize_directory :: "(string \<times> message list) list \<Rightarrow> error + summary list" where
  "summarize_directory fit_files = bind_result (collect_rides fit_files) weekly_summaries"

subsection \<open>Auxiliary functions for the proofs\<close>

text \<open>Reading a decimal string back, and the label of a week key as
  \<open>summarize_week\<close> formats it; both serve to show that labels of distinct keys differ.\<close>

definition nat_of_digits :: "string \<Rightarrow> nat" where
  "nat_of_digits s = foldl (\<lambda>a c. 10 * a + (of_char c - 48)) 0 s"

definition week_label :: "week_key \<Rightarrow> string" where
  "week_label k = str_int (fst k) @ ''-W'' @ format_02d (snd k)"

subsection \<open>Example inputs\<close>

text \<open>An instant on 2024-01-29, a Monday in ISO week 5 of 2024, at 10:00 plus \<open>s\<close> seconds.\<close>

definition at_second :: "int \<Rightarrow> datetime" where
  "at_second s = \<lparr>year = 2024, month = 1, day = 29, hour = 10, minute = 0, second = s,
                   microsecond = 0\<rparr>"

text \<open>Messages out of order, two of them with a missing field.\<close>

definition example_messages :: "message list" where
  "example_messages =
     [\<lparr>timestamp = Some (at_second 2), power = Some 100\<rparr>,
      \<lparr>timestamp = None, power = Some 7\<rparr>,
      \<lparr>timestamp = Some (at_second 0), power = Some 100\<rparr>,
      \<lparr>timestamp = Some (at_second 1), power = Some 100\<rparr>,
      \<lparr>timestamp = Some (at_second 3), power = None\<rparr>]"



text \<open>Three rides: two in ISO week 5 of 2024, in different months, and one on Sunday
  2023-01-01, which belongs to ISO week 52 of 2022.\<close>

definition ride_a :: ride where
  "ride_a = \<lparr>source_file = ''a.fit'',
       start_time = \<lparr>year = 2024, month = 2, day = 1, hour = 7, minute = 30, second = 0,
                     microsecond = 0\<rparr>,
       ride.avg_watts = 170, ride.avg_np = 180, ride.avg_noncoasting_watts = 175,
       ride.total_kj = 350\<rparr>"

definition ride_b :: ride where
  "ride_b = \<lparr>source_file = ''b.fit'',
       start_time = \<lparr>year = 2023, month = 1, day = 1, hour = 9, minute = 0, second = 0,
                     microsecond = 0\<rparr>,
       ride.avg_watts = 100, ride.avg_np = 110, ride.avg_noncoasting_watts = 105,
       ride.total_kj = 500\<rparr>"

definition ride_c :: ride where
  "ride_c = \<lparr>source_file = ''c.fit'', start_time = at_second 0,
       ride.avg_watts = 150, ride.avg_np = 160, ride.avg_noncoasting_watts = 155,
       ride.total_kj = 300\<rparr>"

text \<open>The ride of the example messages, and a directory of two files.\<close>

definition example_ride :: ride where
  "example_ride = \<lparr>source_file = ''ride.fit'', start_time = at_second 0,
       ride.avg_watts = 100, ride.avg_np = 100, ride.avg_noncoasting_watts = 100,
       ride.total_kj = 0.2\<rparr>"

definition example_files :: "(string \<times> message list) list" where
  "example_files = [(''data/empty.fit'', []), (''data/ride.fit'', example_messages)]"

section \<open>Properties\<close>

subsection \<open>Results and library functions\<close>

lemma bind_result_Inr [simp]: "bind_result (Inr v) f = f v"
  by (simp add: bind_result_def)

lemma bind_result_Inl [simp]: "bind_result (Inl e) f = Inl e"
  by (simp add: bind_result_def)

lemma mean_nonempty: "data \<noteq> [] \<Longrightarrow> mean data = Inr (sum_list data / real (length data))"
  by (simp add: mean_def)

subsection \<open>Non-coasting average\<close>

text \<open>
  Claim C7. For every power sequence, the non-coasting average is the arithmetic mean of
  exactly the samples with power strictly greater than 0, and it is 0 when there is no
  such sample. No exception is raised.
\<close>

theorem noncoasting_average_spec:
  "noncoasting_average powers =
     Inr (if \<forall>p \<in> set powers. \<not> 0 < p then 0
          else sum_list (filter (\<lambda>p. 0 < p) powers)
               / real (length (filter (\<lambda>p. 0 < p) powers)))"
proof (cases "filter (\<lambda>p. 0 < p) powers = []")
  case True
  then have "\<forall>p \<in> set powers. \<not> 0 < p"
    by (simp add: filter_empty_conv)
  with True show ?thesis
    by (simp add: noncoasting_average_def)
next
  case False
  then have "\<not> (\<forall>p \<in> set powers. \<not> 0 < p)"
    by (simp add: filter_empty_conv)
  with False show ?thesis
    by (simp add: noncoasting_average_def Let_def mean_nonempty)
qed

theorem noncoasting_average_witness:
  "noncoasting_average [0, 100, - 5, 200] = Inr 150 \<and> noncoasting_average [0, - 3] = Inr 0"
  using noncoasting_average_spec [of "[0, 100, - 5, 200]"] noncoasting_average_spec [of "[0, - 3]"]
  by simp

subsection \<open>Total energy\<close>

lemma energy_loop_sum:
  "energy_loop ps e =
     e + (\<Sum>((t_prev, p_prev), (t_curr, p_curr)) \<leftarrow> ps.
            if 0 < total_seconds t_curr t_prev then p_prev * total_seconds t_curr t_prev else 0)"
proof (induction ps arbitrary: e)
  case Nil
  show ?case by simp
next
  case (Cons a ps)
  obtain tp pp tc pc where a: "a = ((tp, pp), (tc, pc))"
    by (metis surj_pair)
  show ?case
    by (simp add: a Cons.IH Let_def)
qed

text \<open>
  Claim C2. For every sample sequence (sorted by time or not), the total energy in
  kilojoules is the sum, over the consecutive pairs, of the earlier sample's power times
  the time delta in seconds, taken over the pairs with a strictly positive delta only,
  divided by 1000; fewer than 2 samples give 0; three samples of 100 W one second apart
  give 0.2 kJ.
\<close>

theorem ride_energy_kj_spec:
  "ride_energy_kj records =
     (\<Sum>((t_prev, p_prev), (t_curr, p_curr)) \<leftarrow> zip records (drop 1 records).
        if 0 < total_seconds t_curr t_prev then p_prev * total_seconds t_curr t_prev else 0)
     / 1000
   \<and> (length records < 2 \<longrightarrow> ride_energy_kj records = 0)
   \<and> (total_seconds t1 t0 = 1 \<and> total_seconds t2 t1 = 1 \<longrightarrow>
        ride_energy_kj [(t0, 100), (t1, 100), (t2, 100)] = 0.2)"
proof (intro conjI impI)
  show "ride_energy_kj records =
     (\<Sum>((t_prev, p_prev), (t_curr, p_curr)) \<leftarrow> zip records (drop 1 records).
        if 0 < total_seconds t_curr t_prev then p_prev * total_seconds t_curr t_prev else 0)
     / 1000"
  proof (cases "length records < 2")
    case True
    then have "zip records (drop 1 records) = []"
      by (cases records) (auto simp: drop_Suc)
    with True show ?thesis
      by (simp add: ride_energy_kj_def)
  next
    case False
    then show ?thesis
      by (simp add: ride_energy_kj_def energy_loop_sum)
  qed
next
  assume "length records < 2"
  then show "ride_energy_kj records = 0"
    by (simp add: ride_energy_kj_def)
next
  assume "total_seconds t1 t0 = 1 \<and> total_seconds t2 t1 = 1"
  then show "ride_energy_kj [(t0, 100), (t1, 100), (t2, 100)] = 0.2"
    by (simp add: ride_energy_kj_def)
qed

lemma total_seconds_same_day:
  "year a = year b \<Longrightarrow> month a = month b \<Longrightarrow> day a = day b \<Longrightarrow>
   total_seconds a b =
     real_of_int (((hour a - hour b) * 3600 + (minute a - minute b) * 60 + (second a - second b))
                  * 1000000 + (microsecond a - microsecond b)) / 1000000"
  by (simp add: total_seconds_def microseconds_of_def toordinal_def algebra_simps)

theorem ride_energy_kj_witness:
  "length [(at_second 0, 100::real)] < 2 \<and> ride_energy_kj [(at_second 0, 100)] = 0
   \<and> total_seconds (at_second 1) (at_second 0) = 1
   \<and> total_seconds (at_second 2) (at_second 1) = 1
   \<and> ride_energy_kj [(at_second 0, 100), (at_second 1, 100), (at_second 2, 100)] = 0.2"
proof -
  have s1: "total_seconds (at_second 1) (at_second 0) = 1"
    by (simp add: total_seconds_same_day at_second_def)
  have s2: "total_seconds (at_second 2) (at_second 1) = 1"
    by (simp add: total_seconds_same_day at_second_def)
  show ?thesis
    using s1 s2 ride_energy_kj_spec [of "[(at_second 0, 100)]" "at_second 1" "at_second 0" "at_second 2"]
    by simp
qed

subsection \<open>Rolling average and normalized power\<close>

lemma sum_list_slice:
  assumes "i < length P" "29 \<le> i"
  shows "sum_list (slice P (int i - 29) (int i + 1)) = (\<Sum>k = i - 29..i. P ! k)"
proof -
  have s: "slice P (int i - 29) (int i + 1) = take 30 (drop (i - 29) P)"
    using assms by (simp add: slice_def nat_diff_distrib')
  have len: "length (take 30 (drop (i - 29) P)) = 30"
    using assms by simp
  have "sum_list (take 30 (drop (i - 29) P)) = (\<Sum>j = 0..<30. take 30 (drop (i - 29) P) ! j)"
    using len by (simp add: sum_list_sum_nth)
  also have "\<dots> = (\<Sum>j = 0..<30. P ! (i - 29 + j))"
    using assms by (intro sum.cong) auto
  also have "\<dots> = (\<Sum>k = i - 29..<i - 29 + 30. P ! k)"
    using sum.shift_bounds_nat_ivl [of "\<lambda>k. P ! k" 0 "i - 29" 30] by (simp add: add.commute)
  also have "\<dots> = (\<Sum>k = i - 29..i. P ! k)"
  proof -
    have "{i - 29..<i - 29 + 30} = {i - 29..i}"
      using assms by auto
    then show ?thesis by simp
  qed
  finally show ?thesis
    using s by simp
qed

lemma rolling_loop_30:
  "rolling_loop P 30 idxs =
     Inr (map (\<lambda>i. sum_list (slice P (int i - 29) (int i + 1)) / 30)
            (filter (\<lambda>i. 29 \<le> i) idxs))"
  by (induction idxs) (auto simp: Let_def)

lemma filter_ge_upt: "filter (\<lambda>i. (m::nat) \<le> i) [0..<n] = [m..<n]"
proof (induction n)
  case 0
  show ?case by simp
next
  case (Suc n)
  then show ?case
    by (cases "m \<le> n") (auto simp: upt_eq_Nil_conv not_le)
qed

lemma rolling_average_30:
  "rolling_average P 30 = Inr (map (\<lambda>i. (\<Sum>k = i - 29..i. P ! k) / 30) [29..<length P])"
proof -
  have "map (\<lambda>i. sum_list (slice P (int i - 29) (int i + 1)) / 30) [29..<length P]
        = map (\<lambda>i. (\<Sum>k = i - 29..i. P ! k) / 30) [29..<length P]"
    by (rule map_cong) (auto simp: sum_list_slice)
  then show ?thesis
    by (simp add: rolling_average_def rolling_loop_30 filter_ge_upt)
qed

lemma powr_quarter_root: "0 \<le> x \<Longrightarrow> x powr 0.25 = root 4 x"
  using root_powr_inverse [of 4 x] by simp

lemma fourth_powers_nonneg: "0 \<le> sum_list (map (\<lambda>v::real. v ^ 4) R) / real (length R)"
proof -
  have "0 \<le> sum_list (map (\<lambda>v::real. v ^ 4) R)"
    by (rule sum_list_nonneg) auto
  then show ?thesis by simp
qed

lemma fourth_power_mean:
  assumes "R \<noteq> []"
  shows "bind_result (mean (map (\<lambda>v. v ^ 4) R)) (\<lambda>fourth_power_avg. Inr (fourth_power_avg powr 0.25))
         = Inr (root 4 (sum_list (map (\<lambda>r. r ^ 4) R) / real (length R)))"
proof -
  have "mean (map (\<lambda>v. v ^ 4) R) = Inr (sum_list (map (\<lambda>r. r ^ 4) R) / real (length R))"
    using assms by (simp add: mean_def)
  then show ?thesis
    using powr_quarter_root [OF fourth_powers_nonneg [of R]] by simp
qed

lemma normalized_power_eq:
  "normalized_power P =
     Inr (let R = map (\<lambda>i. (\<Sum>k = i - 29..i. P ! k) / 30) [29..<length P]
          in if R \<noteq> [] then root 4 (sum_list (map (\<lambda>r. r ^ 4) R) / real (length R))
             else if P \<noteq> [] then sum_list P / real (length P) else 0)"
proof -
  define R where "R = map (\<lambda>i. (\<Sum>k = i - 29..i. P ! k) / 30) [29..<length P]"
  have np: "normalized_power P =
      (if R = [] then (if P \<noteq> [] then mean P else Inr 0)
       else bind_result (mean (map (\<lambda>v. v ^ 4) R))
              (\<lambda>fourth_power_avg. Inr (fourth_power_avg powr 0.25)))"
    unfolding normalized_power_def rolling_average_30 R_def by simp
  show ?thesis
  proof (cases "R = []")
    case True
    with np have "normalized_power P = (if P \<noteq> [] then mean P else Inr 0)"
      by simp
    then have "normalized_power P = Inr (if P \<noteq> [] then sum_list P / real (length P) else 0)"
      by (simp add: mean_def)
    with True show ?thesis
      unfolding R_def [symmetric] Let_def by simp
  next
    case False
    with np fourth_power_mean [OF False]
    have "normalized_power P = Inr (root 4 (sum_list (map (\<lambda>r. r ^ 4) R) / real (length R)))"
      by simp
    with False show ?thesis
      unfolding R_def [symmetric] Let_def by simp
  qed
qed

text \<open>
  Claim C1. For every power sequence \<open>P\<close>, the rolling averages are, for each index
  \<open>i \<ge> 29\<close> in order, the mean of \<open>P[i-29..i]\<close>, and nothing for an index below 29.
  With \<open>R\<close> the rolling averages: if \<open>R\<close> is not empty, normalized power is the
  fourth root of the mean of the fourth powers of \<open>R\<close>; if \<open>R\<close> is empty, it is the
  mean of \<open>P\<close>, and 0 when \<open>P\<close> is empty.
\<close>

theorem normalized_power_spec:
  "rolling_average P 30 = Inr (map (\<lambda>i. (\<Sum>k = i - 29..i. P ! k) / 30) [29..<length P])
   \<and> normalized_power P =
       Inr (let R = map (\<lambda>i. (\<Sum>k = i - 29..i. P ! k) / 30) [29..<length P]
            in if R \<noteq> [] then root 4 (sum_list (map (\<lambda>r. r ^ 4) R) / real (length R))
               else if P \<noteq> [] then sum_list P / real (length P) else 0)"
  using rolling_average_30 normalized_power_eq by simp

theorem normalized_power_witness:
  "rolling_average [100, 200, 300] 30 = Inr [] \<and> normalized_power [100, 200, 300] = Inr 200
   \<and> normalized_power [] = Inr 0"
  using normalized_power_spec [of "[100, 200, 300]"] normalized_power_spec [of "[]"]
  by simp

subsection \<open>The example messages\<close>

lemma dt_key_at_second: "dt_key (at_second s) = (2024, 1, 29, 10, 0, s, 0)"
  by (simp add: dt_key_def at_second_def)

lemma extract_example:
  "extract_records example_messages =
     [(at_second 0, 100), (at_second 1, 100), (at_second 2, 100)]"
  by (simp add: extract_records_def example_messages_def dt_key_at_second less_eq_prod_def)

subsection \<open>Ride Analyzer\<close>

lemma normalized_power_total: "\<exists>v. normalized_power P = Inr v"
  using normalized_power_eq [of P] by blast

lemma noncoasting_average_total: "\<exists>v. noncoasting_average P = Inr v"
  by (simp add: noncoasting_average_def Let_def mean_def)

lemma rolling_average_total: "\<exists>v. rolling_average P 30 = Inr v"
  using rolling_average_30 [of P] by blast

lemma sorted_extract_records:
  "sorted (map (\<lambda>item. dt_key (fst item)) (extract_records msgs))"
  by (simp add: extract_records_def)

lemma sorted_key_hd_least:
  assumes "sorted (map f xs)" "x \<in> set xs"
  shows "f (hd xs) \<le> f x"
  using assms by (cases xs) auto

lemma analyze_ride_nonempty:
  assumes "extract_records msgs \<noteq> []"
  shows "analyze_ride fit_path msgs =
     bind_result (mean (map snd (extract_records msgs))) (\<lambda>avg_power.
     bind_result (normalized_power (map snd (extract_records msgs))) (\<lambda>np.
     bind_result (noncoasting_average (map snd (extract_records msgs))) (\<lambda>nc.
       Inr (Some \<lparr>source_file = basename fit_path,
                  start_time = hd (map fst (extract_records msgs)),
                  ride.avg_watts = avg_power, ride.avg_np = np,
                  ride.avg_noncoasting_watts = nc,
                  ride.total_kj = ride_energy_kj (extract_records msgs)\<rparr>))))"
  using assms by (simp add: analyze_ride_def Let_def)

lemma analyze_ride_Some:
  assumes "extract_records msgs \<noteq> []"
  shows "\<exists>r. analyze_ride fit_path msgs = Inr (Some r)
           \<and> start_time r = fst (hd (extract_records msgs))
           \<and> mean (map snd (extract_records msgs)) = Inr (ride.avg_watts r)
           \<and> normalized_power (map snd (extract_records msgs)) = Inr (ride.avg_np r)
           \<and> noncoasting_average (map snd (extract_records msgs))
               = Inr (ride.avg_noncoasting_watts r)
           \<and> ride.total_kj r = ride_energy_kj (extract_records msgs)"
proof -
  obtain a where a: "mean (map snd (extract_records msgs)) = Inr a"
    using assms by (auto simp: mean_def)
  obtain np where np: "normalized_power (map snd (extract_records msgs)) = Inr np"
    using normalized_power_total by blast
  obtain nc where nc: "noncoasting_average (map snd (extract_records msgs)) = Inr nc"
    using noncoasting_average_total by blast
  show ?thesis
    using assms by (simp add: analyze_ride_nonempty a np nc hd_map)
qed

lemma analyze_ride_empty:
  "extract_records msgs = [] \<Longrightarrow> analyze_ride fit_path msgs = Inr None"
  by (simp add: analyze_ride_def)

text \<open>
  Claim C6. The Ride Analyzer returns the absence value \<open>None\<close>, and no error, exactly when
  the extracted sample sequence is empty. Otherwise it returns a ride whose start time is
  the timestamp of the first sample, which is the earliest one, and whose metric fields are
  the results of the metric computations over the whole sequence.
\<close>

theorem analyze_ride_spec:
  "(analyze_ride fit_path msgs = Inr None \<longleftrightarrow> extract_records msgs = [])
   \<and> (\<forall>e. analyze_ride fit_path msgs \<noteq> Inl e)
   \<and> (extract_records msgs \<noteq> [] \<longrightarrow>
        (\<exists>r. analyze_ride fit_path msgs = Inr (Some r)
           \<and> start_time r = fst (hd (extract_records msgs))
           \<and> (\<forall>s \<in> set (extract_records msgs). dt_key (start_time r) \<le> dt_key (fst s))
           \<and> mean (map snd (extract_records msgs)) = Inr (ride.avg_watts r)
           \<and> normalized_power (map snd (extract_records msgs)) = Inr (ride.avg_np r)
           \<and> noncoasting_average (map snd (extract_records msgs))
               = Inr (ride.avg_noncoasting_watts r)
           \<and> ride.total_kj r = ride_energy_kj (extract_records msgs)))"
proof (cases "extract_records msgs = []")
  case True
  then show ?thesis
    by (simp add: analyze_ride_empty)
next
  case False
  from analyze_ride_Some [OF False, of fit_path]
  obtain r where r: "analyze_ride fit_path msgs = Inr (Some r)"
      "start_time r = fst (hd (extract_records msgs))"
      "mean (map snd (extract_records msgs)) = Inr (ride.avg_watts r)"
      "normalized_power (map snd (extract_records msgs)) = Inr (ride.avg_np r)"
      "noncoasting_average (map snd (extract_records msgs)) = Inr (ride.avg_noncoasting_watts r)"
      "ride.total_kj r = ride_energy_kj (extract_records msgs)"
    by blast
  have least: "\<forall>s \<in> set (extract_records msgs). dt_key (start_time r) \<le> dt_key (fst s)"
    using sorted_key_hd_least [OF sorted_extract_records] r(2) by simp
  from False r least show ?thesis
    by auto
qed

theorem analyze_ride_witness:
  "analyze_ride ''data/empty.fit'' [] = Inr None
   \<and> extract_records example_messages \<noteq> []
   \<and> (\<exists>r. analyze_ride ''data/ride.fit'' example_messages = Inr (Some r)
        \<and> start_time r = at_second 0 \<and> ride.total_kj r = 0.2)"
proof -
  have s1: "total_seconds (at_second 1) (at_second 0) = 1"
    by (simp add: total_seconds_same_day at_second_def)
  have s2: "total_seconds (at_second 2) (at_second 1) = 1"
    by (simp add: total_seconds_same_day at_second_def)
  have e: "ride_energy_kj [(at_second 0, 100), (at_second 1, 100), (at_second 2, 100)] = 0.2"
    using s1 s2 by (simp add: ride_energy_kj_def)
  have empty: "extract_records [] = []"
    by (simp add: extract_records_def)
  show ?thesis
    using analyze_ride_spec [of "''data/empty.fit''" "[]"]
      analyze_ride_spec [of "''data/ride.fit''" example_messages]
    by (auto simp: extract_example empty e)
qed

subsection \<open>Record Extractor\<close>










subsection \<open>Grouping by week\<close>

lemma keys_append_group:
  "fst ` set (append_group grouped k r) = insert k (fst ` set grouped)"
  by (induction grouped k r rule: append_group.induct) auto

lemma distinct_append_group:
  "distinct (map fst grouped) \<Longrightarrow> distinct (map fst (append_group grouped k r))"
proof (induction grouped k r rule: append_group.induct)
  case (1 k r)
  show ?case by simp
next
  case (2 k' rs grouped k r)
  then show ?case
    using keys_append_group [of grouped k r] by auto
qed

lemma group_by_week_snoc:
  "group_by_week (rides @ [r]) = append_group (group_by_week rides) (week_key_of r) r"
  by (simp add: group_by_week_def)

lemma group_by_week_Nil: "group_by_week [] = []"
  by (simp add: group_by_week_def)

lemma members_append_group:
  "distinct (map fst grouped) \<Longrightarrow> (k', rs') \<in> set (append_group grouped k r) \<Longrightarrow>
     (k' \<noteq> k \<and> (k', rs') \<in> set grouped)
     \<or> (k' = k \<and> (\<exists>rs. (k, rs) \<in> set grouped \<and> rs' = rs @ [r]))
     \<or> (k' = k \<and> k \<notin> fst ` set grouped \<and> rs' = [r])"
proof (induction grouped k r rule: append_group.induct)
  case (1 k r)
  then show ?case by simp
next
  case (2 k'' rs grouped k r)
  show ?case
  proof (cases "k'' = k")
    case True
    from "2.prems"(1) True have fresh: "k \<notin> fst ` set grouped"
      by simp
    from "2.prems"(2) True have "(k', rs') = (k, rs @ [r]) \<or> (k', rs') \<in> set grouped"
      by simp
    then show ?thesis
    proof
      assume "(k', rs') = (k, rs @ [r])"
      with True show ?thesis by auto
    next
      assume m: "(k', rs') \<in> set grouped"
      then have "k' \<in> fst ` set grouped"
        by force
      with fresh have "k' \<noteq> k"
        by blast
      with m show ?thesis by simp
    qed
  next
    case False
    from "2.prems"(1) have d: "distinct (map fst grouped)"
      by simp
    from "2.prems"(2) False
    have "(k', rs') = (k'', rs) \<or> (k', rs') \<in> set (append_group grouped k r)"
      by simp
    then show ?thesis
    proof
      assume "(k', rs') = (k'', rs)"
      with False show ?thesis by simp
    next
      assume "(k', rs') \<in> set (append_group grouped k r)"
      from "2.IH" [OF False d this] False show ?thesis
        by auto
    qed
  qed
qed

lemma keys_group_by_week: "fst ` set (group_by_week rides) = week_key_of ` set rides"
proof (induction rides rule: rev_induct)
  case Nil
  show ?case by (simp add: group_by_week_Nil)
next
  case (snoc r rides)
  then show ?case
    by (simp add: group_by_week_snoc keys_append_group)
qed

lemma distinct_group_by_week: "distinct (map fst (group_by_week rides))"
proof (induction rides rule: rev_induct)
  case Nil
  show ?case by (simp add: group_by_week_Nil)
next
  case (snoc r rides)
  then show ?case
    by (simp add: group_by_week_snoc distinct_append_group)
qed

lemma members_group_by_week:
  "(k, rs) \<in> set (group_by_week rides) \<Longrightarrow> rs = filter (\<lambda>r. week_key_of r = k) rides"
proof (induction rides arbitrary: k rs rule: rev_induct)
  case Nil
  then show ?case by (simp add: group_by_week_Nil)
next
  case (snoc r rides)
  from snoc.prems have "(k, rs) \<in> set (append_group (group_by_week rides) (week_key_of r) r)"
    by (simp add: group_by_week_snoc)
  from members_append_group [OF distinct_group_by_week this]
  consider (other) "k \<noteq> week_key_of r" "(k, rs) \<in> set (group_by_week rides)"
    | (old) rs0 where "k = week_key_of r" "(k, rs0) \<in> set (group_by_week rides)" "rs = rs0 @ [r]"
    | (new) "k = week_key_of r" "week_key_of r \<notin> fst ` set (group_by_week rides)" "rs = [r]"
    by blast
  then show ?case
  proof cases
    case other
    with snoc.IH [of k rs] show ?thesis by auto
  next
    case old
    with snoc.IH [of k rs0] show ?thesis by auto
  next
    case new
    then have "week_key_of r \<notin> week_key_of ` set rides"
      by (simp add: keys_group_by_week)
    then have "\<forall>x \<in> set rides. week_key_of x \<noteq> week_key_of r"
      by (metis imageI)
    then have "filter (\<lambda>x. week_key_of x = week_key_of r) rides = []"
      by (simp add: filter_empty_conv)
    with new show ?thesis by simp
  qed
qed



lemma sorted_items_keys:
  "map fst (sort_key fst (group_by_week rides)) = sorted_list_of_set (week_key_of ` set rides)"
proof -
  let ?items = "sort_key fst (group_by_week rides)"
  have s: "sorted (map fst ?items)"
    by simp
  have "mset (map fst ?items) = mset (map fst (group_by_week rides))"
    by simp
  then have d: "distinct (map fst ?items)"
    using distinct_group_by_week [of rides] by (metis mset_eq_imp_distinct_iff)
  have k: "set (map fst ?items) = week_key_of ` set rides"
    using keys_group_by_week [of rides] by simp
  from s d have "sorted_list_of_set (set (map fst ?items)) = map fst ?items"
    by (rule sorted_list_of_set.idem_if_sorted_distinct)
  with k show ?thesis
    by simp
qed

lemma sorted_items:
  "sort_key fst (group_by_week rides) =
     map (\<lambda>k. (k, filter (\<lambda>r. week_key_of r = k) rides))
       (sorted_list_of_set (week_key_of ` set rides))"
proof -
  let ?items = "sort_key fst (group_by_week rides)"
  have "map (\<lambda>x. (fst x, filter (\<lambda>r. week_key_of r = fst x) rides)) ?items = map (\<lambda>x. x) ?items"
  proof (rule map_cong [OF refl])
    fix x
    assume "x \<in> set ?items"
    then have "(fst x, snd x) \<in> set (group_by_week rides)"
      by simp
    then have "snd x = filter (\<lambda>r. week_key_of r = fst x) rides"
      by (rule members_group_by_week)
    then show "(fst x, filter (\<lambda>r. week_key_of r = fst x) rides) = x"
      by (metis prod.collapse)
  qed
  then have "?items = map (\<lambda>k. (k, filter (\<lambda>r. week_key_of r = k) rides)) (map fst ?items)"
    by (simp add: o_def)
  then show ?thesis
    by (simp only: sorted_items_keys)
qed

subsection \<open>Weekly summaries\<close>

lemma private_mean_eq:
  "private_mean values = Inr (if values = [] then 0 else sum_list values / real (length values))"
  by (simp add: private_mean_def mean_def)

lemma summarize_week_eq:
  "summarize_week k rides =
     Inr \<lparr>week = str_int (fst k) @ ''-W'' @ format_02d (snd k),
          avg_watts = (if rides = [] then 0
                       else sum_list (map ride.avg_watts rides) / real (length rides)),
          avg_np = (if rides = [] then 0
                    else sum_list (map ride.avg_np rides) / real (length rides)),
          avg_noncoasting_watts = (if rides = [] then 0
                    else sum_list (map ride.avg_noncoasting_watts rides) / real (length rides)),
          ride_count = length rides,
          total_kj = sum_list (map ride.total_kj rides)\<rparr>"
  by (simp add: summarize_week_def private_mean_eq)

lemma summarize_all_eq:
  "summarize_all items =
     Inr (map (\<lambda>item. case summarize_week (fst item) (snd item) of Inr row \<Rightarrow> row) items)"
proof (induction items)
  case Nil
  show ?case by simp
next
  case (Cons item items)
  obtain k rides where item: "item = (k, rides)"
    by (cases item)
  show ?case
    by (simp add: item Cons.IH summarize_week_eq)
qed

lemma weekly_summaries_eq:
  "weekly_summaries rides =
     Inr (map (\<lambda>k. case summarize_week k (filter (\<lambda>r. week_key_of r = k) rides) of
                     Inr row \<Rightarrow> row)
            (sorted_list_of_set (week_key_of ` set rides)))"
  by (simp add: weekly_summaries_def summarize_all_eq sorted_items o_def)

lemma group_nonempty:
  "k \<in> week_key_of ` set rides \<Longrightarrow> filter (\<lambda>r. week_key_of r = k) rides \<noteq> []"
  by (auto simp: filter_empty_conv)

lemma weekly_summaries_rows:
  "weekly_summaries rides =
     Inr (map (\<lambda>k. let group = filter (\<lambda>r. week_key_of r = k) rides in
                 \<lparr>week = str_int (fst k) @ ''-W'' @ format_02d (snd k),
                  avg_watts = sum_list (map ride.avg_watts group) / real (length group),
                  avg_np = sum_list (map ride.avg_np group) / real (length group),
                  avg_noncoasting_watts =
                    sum_list (map ride.avg_noncoasting_watts group) / real (length group),
                  ride_count = length group,
                  total_kj = sum_list (map ride.total_kj group)\<rparr>)
            (sorted_list_of_set (week_key_of ` set rides)))"
proof -
  have "map (\<lambda>k. case summarize_week k (filter (\<lambda>r. week_key_of r = k) rides) of
                     Inr row \<Rightarrow> row)
            (sorted_list_of_set (week_key_of ` set rides))
      = map (\<lambda>k. let group = filter (\<lambda>r. week_key_of r = k) rides in
                 \<lparr>week = str_int (fst k) @ ''-W'' @ format_02d (snd k),
                  avg_watts = sum_list (map ride.avg_watts group) / real (length group),
                  avg_np = sum_list (map ride.avg_np group) / real (length group),
                  avg_noncoasting_watts =
                    sum_list (map ride.avg_noncoasting_watts group) / real (length group),
                  ride_count = length group,
                  total_kj = sum_list (map ride.total_kj group)\<rparr>)
            (sorted_list_of_set (week_key_of ` set rides))"
  proof (rule map_cong [OF refl])
    fix k
    assume "k \<in> set (sorted_list_of_set (week_key_of ` set rides))"
    then have "k \<in> week_key_of ` set rides"
      by simp
    then have ne: "filter (\<lambda>r. week_key_of r = k) rides \<noteq> []"
      by (rule group_nonempty)
    show "(case summarize_week k (filter (\<lambda>r. week_key_of r = k) rides) of Inr row \<Rightarrow> row)
      = (let group = filter (\<lambda>r. week_key_of r = k) rides in
                 \<lparr>week = str_int (fst k) @ ''-W'' @ format_02d (snd k),
                  avg_watts = sum_list (map ride.avg_watts group) / real (length group),
                  avg_np = sum_list (map ride.avg_np group) / real (length group),
                  avg_noncoasting_watts =
                    sum_list (map ride.avg_noncoasting_watts group) / real (length group),
                  ride_count = length group,
                  total_kj = sum_list (map ride.total_kj group)\<rparr>)"
      unfolding summarize_week_eq Let_def using ne by simp
  qed
  then show ?thesis
    by (simp only: weekly_summaries_eq)
qed

lemma keys_ascending:
  "sorted_wrt (\<lambda>a b. fst a < fst b \<or> (fst a = fst b \<and> snd a < snd b))
     (sorted_list_of_set (week_key_of ` set rides))"
proof -
  have "sorted_wrt (<) (sorted_list_of_set (week_key_of ` set rides))"
    by simp
  then show ?thesis
    by (rule sorted_wrt_mono_rel [rotated]) (auto simp: less_prod_def)
qed

lemma char_of_48: "char_of (48::nat) = CHR ''0''"
  by code_simp

lemma digits_of_small: "n < 10 \<Longrightarrow> digits_of n = [char_of (48 + n)]"
  by (simp add: digits_of.simps)

lemma digits_of_two: "10 \<le> n \<Longrightarrow> n < 100 \<Longrightarrow>
    digits_of n = [char_of (48 + n div 10), char_of (48 + n mod 10)]"
  by (subst digits_of.simps) (simp add: digits_of_small)

lemma format_02d_week:
  assumes "0 \<le> w" "w < 100"
  shows "format_02d w = [char_of (48 + nat w div 10), char_of (48 + nat w mod 10)]"
proof (cases "w < 10")
  case True
  with assms have "digits_of (nat w) = [char_of (48 + nat w)]"
    by (intro digits_of_small) simp
  with True assms show ?thesis
    by (simp add: format_02d_def zero_fill_def char_of_48)
next
  case False
  with assms have "digits_of (nat w) = [char_of (48 + nat w div 10), char_of (48 + nat w mod 10)]"
    by (intro digits_of_two) simp_all
  with assms show ?thesis
    by (simp add: format_02d_def zero_fill_def)
qed

subsection \<open>The example rides\<close>

lemma ymd2ord_values:
  "ymd2ord 2024 2 1 = 738917" "ymd2ord 2023 1 1 = 738521" "ymd2ord 2024 1 29 = 738914"
  "ymd2ord 2024 1 1 = 738886" "ymd2ord 2025 1 1 = 739252" "ymd2ord 2022 1 1 = 738156"
  by code_simp+

lemma week_key_example:
  "week_key_of ride_a = (2024, 5)" "week_key_of ride_b = (2022, 52)"
  "week_key_of ride_c = (2024, 5)"
  by (simp_all add: ride_a_def ride_b_def ride_c_def week_key_of_def isocalendar_def
      isoweek1monday_def toordinal_def ymd2ord_values at_second_def Let_def)

lemma example_keys:
  "sorted_list_of_set (week_key_of ` set [ride_a, ride_b, ride_c]) = [(2022, 52), (2024, 5)]"
proof -
  have "week_key_of ` set [ride_a, ride_b, ride_c] = set [(2022, 52), (2024, 5)]"
    by (auto simp: week_key_example)
  moreover have "sorted_list_of_set (set [(2022::int, 52::int), (2024, 5)]) = [(2022, 52), (2024, 5)]"
    by (rule sorted_list_of_set.idem_if_sorted_distinct) simp_all
  ultimately show ?thesis
    by simp
qed

lemma example_labels:
  "str_int 2022 @ ''-W'' @ format_02d 52 = ''2022-W52''"
  "str_int 2024 @ ''-W'' @ format_02d 5 = ''2024-W05''"
  by code_simp+

subsection \<open>The groups partition the rides\<close>









subsection \<open>Week labels\<close>

lemma nat_of_digits_snoc:
  "nat_of_digits (s @ [c]) = 10 * nat_of_digits s + (of_char c - 48)"
  by (simp add: nat_of_digits_def)

lemma digit_value: "d < 10 \<Longrightarrow> (of_char (char_of (48 + d :: nat)) :: nat) - 48 = d"
  by simp

lemma nat_of_digits_digits_of: "nat_of_digits (digits_of n) = n"
proof (induction n rule: digits_of.induct)
  case (1 n)
  show ?case
  proof (cases "n < 10")
    case True
    then have "digits_of n = [] @ [char_of (48 + n)]"
      by (simp add: digits_of.simps)
    then have "nat_of_digits (digits_of n) = 10 * nat_of_digits [] + (of_char (char_of (48 + n)) - 48)"
      by (simp only: nat_of_digits_snoc)
    with True show ?thesis
      by (simp add: digit_value nat_of_digits_def)
  next
    case False
    then have "digits_of n = digits_of (n div 10) @ [char_of (48 + n mod 10)]"
      by (subst digits_of.simps) simp
    then have "nat_of_digits (digits_of n)
        = 10 * nat_of_digits (digits_of (n div 10)) + (of_char (char_of (48 + n mod 10)) - 48)"
      by (simp only: nat_of_digits_snoc)
    also have "\<dots> = 10 * (n div 10) + n mod 10"
    proof -
      have "(of_char (char_of (48 + n mod 10 :: nat)) :: nat) - 48 = n mod 10"
        by (rule digit_value) simp
      with "1.IH" [OF False] show ?thesis
        by (simp only:)
    qed
    finally show ?thesis
      by simp
  qed
qed

lemma digits_of_inj: "digits_of n = digits_of m \<Longrightarrow> n = m"
  by (metis nat_of_digits_digits_of)

lemma digits_of_chars: "c \<in> set (digits_of n) \<Longrightarrow> 48 \<le> (of_char c :: nat) \<and> (of_char c :: nat) \<le> 57"
proof (induction n rule: digits_of.induct)
  case (1 n)
  show ?case
  proof (cases "n < 10")
    case True
    with "1.prems" have "c = char_of (48 + n)"
      by (simp add: digits_of.simps)
    with True show ?thesis by simp
  next
    case False
    then have "digits_of n = digits_of (n div 10) @ [char_of (48 + n mod 10)]"
      by (subst digits_of.simps) simp
    with "1.prems" have "c \<in> set (digits_of (n div 10)) \<or> c = char_of (48 + n mod 10)"
      by auto
    then show ?thesis
    proof
      assume "c \<in> set (digits_of (n div 10))"
      with "1.IH" [OF False] show ?thesis by simp
    next
      assume c: "c = char_of (48 + n mod 10)"
      have "n mod 10 < 10" by simp
      then have "(48 + n mod 10) mod 256 = 48 + n mod 10"
        by simp
      with c show ?thesis by simp
    qed
  qed
qed

lemma digits_of_nonempty: "digits_of n \<noteq> []"
  by (subst digits_of.simps) simp

lemma minus_not_digit: "CHR ''-'' \<notin> set (digits_of n)"
  using digits_of_chars [of "CHR ''-''" n] by auto

lemma W_not_digit: "CHR ''W'' \<notin> set (digits_of n)"
  using digits_of_chars [of "CHR ''W''" n] by auto

lemma hd_digits_of: "hd (digits_of n) \<noteq> CHR ''-''"
  using minus_not_digit [of n] digits_of_nonempty [of n] by (metis hd_in_set)

lemma str_int_inj: "str_int a = str_int b \<Longrightarrow> a = b"
proof -
  assume eq: "str_int a = str_int b"
  consider (nn) "a < 0" "b < 0" | (np) "a < 0" "0 \<le> b" | (pn) "0 \<le> a" "b < 0"
    | (pp) "0 \<le> a" "0 \<le> b"
    by linarith
  then show ?thesis
  proof cases
    case nn
    with eq have "digits_of (nat (- a)) = digits_of (nat (- b))"
      by (simp add: str_int_def)
    then have "nat (- a) = nat (- b)"
      by (rule digits_of_inj)
    with nn show ?thesis by simp
  next
    case np
    with eq have "CHR ''-'' # digits_of (nat (- a)) = digits_of (nat b)"
      by (simp add: str_int_def)
    then have "hd (digits_of (nat b)) = CHR ''-''"
      by (metis list.sel(1))
    with hd_digits_of show ?thesis by blast
  next
    case pn
    with eq have "digits_of (nat a) = CHR ''-'' # digits_of (nat (- b))"
      by (simp add: str_int_def)
    then have "hd (digits_of (nat a)) = CHR ''-''"
      by (metis list.sel(1))
    with hd_digits_of show ?thesis by blast
  next
    case pp
    with eq have "digits_of (nat a) = digits_of (nat b)"
      by (simp add: str_int_def)
    then have "nat a = nat b"
      by (rule digits_of_inj)
    with pp show ?thesis by simp
  qed
qed

lemma nat_of_digits_zero_fill: "nat_of_digits (zero_fill w s) = nat_of_digits s"
proof -
  have "foldl (\<lambda>a c. 10 * a + (of_char c - 48)) (0::nat) (replicate k CHR ''0'') = 0" for k
    by (induction k) simp_all
  then show ?thesis
    by (simp add: nat_of_digits_def zero_fill_def)
qed

lemma zero_fill_one: "zero_fill (Suc 0) (digits_of n) = digits_of n"
  using digits_of_nonempty [of n] by (cases "digits_of n") (simp_all add: zero_fill_def)

lemma hd_zero_fill: "hd (zero_fill w (digits_of n)) \<noteq> CHR ''-''"
proof (cases "w - length (digits_of n)")
  case 0
  then show ?thesis
    by (simp add: zero_fill_def hd_digits_of)
next
  case (Suc k)
  then show ?thesis
    by (simp add: zero_fill_def)
qed

lemma format_02d_inj: "format_02d a = format_02d b \<Longrightarrow> a = b"
proof -
  assume eq: "format_02d a = format_02d b"
  consider (nn) "a < 0" "b < 0" | (np) "a < 0" "0 \<le> b" | (pn) "0 \<le> a" "b < 0"
    | (pp) "0 \<le> a" "0 \<le> b"
    by linarith
  then show ?thesis
  proof cases
    case nn
    with eq have "digits_of (nat (- a)) = digits_of (nat (- b))"
      by (simp add: format_02d_def zero_fill_one)
    then have "nat (- a) = nat (- b)"
      by (rule digits_of_inj)
    with nn show ?thesis by simp
  next
    case np
    with eq have "CHR ''-'' # zero_fill 1 (digits_of (nat (- a))) = zero_fill 2 (digits_of (nat b))"
      by (simp add: format_02d_def)
    then have "hd (zero_fill 2 (digits_of (nat b))) = CHR ''-''"
      by (metis list.sel(1))
    with hd_zero_fill show ?thesis by blast
  next
    case pn
    with eq have "zero_fill 2 (digits_of (nat a)) = CHR ''-'' # zero_fill 1 (digits_of (nat (- b)))"
      by (simp add: format_02d_def)
    then have "hd (zero_fill 2 (digits_of (nat a))) = CHR ''-''"
      by (metis list.sel(1))
    with hd_zero_fill show ?thesis by blast
  next
    case pp
    with eq have "zero_fill 2 (digits_of (nat a)) = zero_fill 2 (digits_of (nat b))"
      by (simp add: format_02d_def)
    then have "nat_of_digits (zero_fill 2 (digits_of (nat a)))
             = nat_of_digits (zero_fill 2 (digits_of (nat b)))"
      by simp
    then have "nat a = nat b"
      by (simp only: nat_of_digits_zero_fill nat_of_digits_digits_of)
    with pp show ?thesis by simp
  qed
qed

lemma W_not_in_format: "CHR ''W'' \<notin> set (format_02d w)"
  using W_not_digit by (auto simp: format_02d_def zero_fill_def)

lemma W_not_in_str_int: "CHR ''W'' \<notin> set (str_int y @ ''-'')"
  using W_not_digit by (simp add: str_int_def)

lemma week_label_inj: "week_label k = week_label k' \<Longrightarrow> k = k'"
proof -
  assume "week_label k = week_label k'"
  then have "(str_int (fst k) @ ''-'') @ CHR ''W'' # format_02d (snd k)
           = (str_int (fst k') @ ''-'') @ CHR ''W'' # format_02d (snd k')"
    by (simp add: week_label_def)
  then have "str_int (fst k) @ ''-'' = str_int (fst k') @ ''-''
           \<and> format_02d (snd k) = format_02d (snd k')"
    by (simp only: append_Cons_eq_iff [OF W_not_in_str_int W_not_in_format])
  then have "fst k = fst k'" "snd k = snd k'"
    by (auto dest: str_int_inj format_02d_inj)
  then show ?thesis
    by (rule prod_eqI)
qed

subsection \<open>Weekly Aggregator\<close>

text \<open>
  Claim C3. For every list of rides there is one row for each (ISO year, ISO week) pair of
  a start time, in ascending order of (year, week). The row of a pair has the arithmetic
  means of \<open>avg_watts\<close>, \<open>avg_np\<close> and \<open>avg_noncoasting_watts\<close> over the rides of that
  pair, the sum of their \<open>total_kj\<close>, their number as \<open>ride_count\<close>, and the label made
  of the year, \<open>-W\<close> and the week in two digits. The run over a directory emits these
  rows for the rides it analysed.
\<close>

theorem weekly_summaries_spec:
  "weekly_summaries rides =
     Inr (map (\<lambda>k. let group = filter (\<lambda>r. week_key_of r = k) rides in
                 \<lparr>week = str_int (fst k) @ ''-W'' @ format_02d (snd k),
                  avg_watts = sum_list (map ride.avg_watts group) / real (length group),
                  avg_np = sum_list (map ride.avg_np group) / real (length group),
                  avg_noncoasting_watts =
                    sum_list (map ride.avg_noncoasting_watts group) / real (length group),
                  ride_count = length group,
                  total_kj = sum_list (map ride.total_kj group)\<rparr>)
            (sorted_list_of_set (week_key_of ` set rides)))
   \<and> sorted_wrt (\<lambda>a b. fst a < fst b \<or> (fst a = fst b \<and> snd a < snd b))
        (sorted_list_of_set (week_key_of ` set rides))
   \<and> week_key_of r = (fst (isocalendar (start_time r)), fst (snd (isocalendar (start_time r))))
   \<and> (0 \<le> w \<and> w < 100 \<longrightarrow>
        format_02d w = [char_of (48 + nat w div 10), char_of (48 + nat w mod 10)])
   \<and> (collect_rides fit_files = Inr rides \<longrightarrow>
        summarize_directory fit_files = weekly_summaries rides)"
proof -
  have k: "week_key_of r = (fst (isocalendar (start_time r)), fst (snd (isocalendar (start_time r))))"
    by (simp add: week_key_of_def Let_def)
  have f: "0 \<le> w \<and> w < 100 \<longrightarrow>
        format_02d w = [char_of (48 + nat w div 10), char_of (48 + nat w mod 10)]"
    using format_02d_week [of w] by blast
  have d: "collect_rides fit_files = Inr rides \<longrightarrow>
        summarize_directory fit_files = weekly_summaries rides"
    by (simp add: summarize_directory_def)
  from weekly_summaries_rows [of rides] keys_ascending [of rides] k f d show ?thesis
    by blast
qed

lemma row_count_positive:
  "\<forall>row \<in> set (map (\<lambda>k. case summarize_week k (filter (\<lambda>r. week_key_of r = k) rides) of
                              Inr row \<Rightarrow> row)
                   (sorted_list_of_set (week_key_of ` set rides))). 1 \<le> ride_count row"
proof -
  have "1 \<le> length (filter (\<lambda>r. week_key_of r = k) rides)" if "k \<in> week_key_of ` set rides" for k
    using group_nonempty [OF that] by (simp add: Suc_le_eq)
  then show ?thesis
    by (auto simp: summarize_week_eq)
qed

lemma row_labels:
  "map week (map (\<lambda>k. case summarize_week k (filter (\<lambda>r. week_key_of r = k) rides) of
                              Inr row \<Rightarrow> row) ks)
   = map (\<lambda>k. str_int (fst k) @ ''-W'' @ format_02d (snd k)) ks"
  by (simp add: summarize_week_eq)

lemma distinct_labels:
  "distinct (map (\<lambda>k. str_int (fst k) @ ''-W'' @ format_02d (snd k))
               (sorted_list_of_set (week_key_of ` set rides)))"
proof -
  have "inj_on week_label (set (sorted_list_of_set (week_key_of ` set rides)))"
    by (rule inj_onI) (rule week_label_inj)
  then have "distinct (map week_label (sorted_list_of_set (week_key_of ` set rides)))"
    by (simp add: distinct_map)
  then show ?thesis
    by (simp add: week_label_def [abs_def])
qed

text \<open>
  Claim C8. Every emitted row has a ride count of at least 1, and there is exactly one row
  for each week key among the rides: as many rows as distinct keys, labelled by the keys
  in ascending order, with pairwise distinct labels.
\<close>

theorem weekly_rows_nonempty:
  "\<exists>rows. weekly_summaries rides = Inr rows
     \<and> (\<forall>row \<in> set rows. 1 \<le> ride_count row)
     \<and> length rows = card (week_key_of ` set rides)
     \<and> map week rows = map (\<lambda>k. str_int (fst k) @ ''-W'' @ format_02d (snd k))
                          (sorted_list_of_set (week_key_of ` set rides))
     \<and> distinct (map week rows)"
proof -
  let ?rows = "map (\<lambda>k. case summarize_week k (filter (\<lambda>r. week_key_of r = k) rides) of
                              Inr row \<Rightarrow> row)
                   (sorted_list_of_set (week_key_of ` set rides))"
  have a: "weekly_summaries rides = Inr ?rows"
    by (rule weekly_summaries_eq)
  have b: "\<forall>row \<in> set ?rows. 1 \<le> ride_count row"
    by (rule row_count_positive)
  have c: "length ?rows = card (week_key_of ` set rides)"
    by simp
  have d: "map week ?rows = map (\<lambda>k. str_int (fst k) @ ''-W'' @ format_02d (snd k))
                          (sorted_list_of_set (week_key_of ` set rides))"
    by (rule row_labels)
  have e: "distinct (map week ?rows)"
    unfolding d by (rule distinct_labels)
  from a b c d e show ?thesis
    by blast
qed

lemma ride_fields:
  "ride.avg_watts ride_a = 170" "ride.avg_np ride_a = 180"
  "ride.avg_noncoasting_watts ride_a = 175" "ride.total_kj ride_a = 350"
  "ride.avg_watts ride_b = 100" "ride.avg_np ride_b = 110"
  "ride.avg_noncoasting_watts ride_b = 105" "ride.total_kj ride_b = 500"
  "ride.avg_watts ride_c = 150" "ride.avg_np ride_c = 160"
  "ride.avg_noncoasting_watts ride_c = 155" "ride.total_kj ride_c = 300"
  by (simp_all add: ride_a_def ride_b_def ride_c_def)

lemma example_strings:
  "str_int 2022 = ''2022''" "str_int 2024 = ''2024''"
  "format_02d 52 = ''52''" "format_02d 5 = ''05''"
  by code_simp+


lemma analyze_example:
  "analyze_ride ''data/ride.fit'' example_messages = Inr (Some example_ride)"
proof -
  have s: "total_seconds (at_second 1) (at_second 0) = 1" "total_seconds (at_second 2) (at_second 1) = 1"
    by (simp_all add: total_seconds_same_day at_second_def)
  have e: "ride_energy_kj [(at_second 0, 100), (at_second 1, 100), (at_second 2, 100)] = 0.2"
    using s by (simp add: ride_energy_kj_def)
  have np: "normalized_power [100, 100, 100] = Inr 100"
    unfolding normalized_power_eq by simp
  have m: "mean [100, 100, 100] = Inr 100" "noncoasting_average [100, 100, 100] = Inr 100"
    by (simp_all add: mean_def noncoasting_average_def)
  have b: "basename ''data/ride.fit'' = ''ride.fit''"
    by simp
  show ?thesis
    by (simp add: analyze_ride_def extract_example np m e b example_ride_def Let_def
        del: basename.simps)
qed

lemma collect_example: "collect_rides example_files = Inr [example_ride]"
proof -
  have "analyze_ride ''data/empty.fit'' [] = Inr None"
    by (simp add: analyze_ride_def extract_records_def)
  then show ?thesis
    by (simp add: example_files_def analyze_example)
qed

lemma week_key_example_ride: "week_key_of example_ride = (2024, 5)"
  by (simp add: example_ride_def week_key_of_def isocalendar_def
      isoweek1monday_def toordinal_def ymd2ord_values at_second_def Let_def)

theorem weekly_summaries_witness:
  "weekly_summaries [ride_a, ride_b, ride_c] =
     Inr [\<lparr>week = ''2022-W52'', avg_watts = 100, avg_np = 110, avg_noncoasting_watts = 105,
           ride_count = 1, total_kj = 500\<rparr>,
          \<lparr>week = ''2024-W05'', avg_watts = 160, avg_np = 170, avg_noncoasting_watts = 165,
           ride_count = 2, total_kj = 650\<rparr>]
   \<and> (0::int) \<le> 5 \<and> (5::int) < 100 \<and> format_02d 5 = ''05''
   \<and> collect_rides example_files = Inr [example_ride]
   \<and> summarize_directory example_files =
       Inr [\<lparr>week = ''2024-W05'', avg_watts = 100, avg_np = 100, avg_noncoasting_watts = 100,
             ride_count = 1, total_kj = 0.2\<rparr>]"
proof -
  have k1: "sorted_list_of_set (week_key_of ` set [example_ride]) = [(2024, 5)]"
    by (simp add: week_key_example_ride)
  have r: "ride.avg_watts example_ride = 100" "ride.avg_np example_ride = 100"
    "ride.avg_noncoasting_watts example_ride = 100" "ride.total_kj example_ride = 0.2"
    by (simp_all add: example_ride_def)
  have a: "weekly_summaries [ride_a, ride_b, ride_c] =
     Inr [\<lparr>week = ''2022-W52'', avg_watts = 100, avg_np = 110, avg_noncoasting_watts = 105,
           ride_count = 1, total_kj = 500\<rparr>,
          \<lparr>week = ''2024-W05'', avg_watts = 160, avg_np = 170, avg_noncoasting_watts = 165,
           ride_count = 2, total_kj = 650\<rparr>]"
    using weekly_summaries_spec [of "[ride_a, ride_b, ride_c]" ride_a 5 example_files]
    unfolding example_keys
    by (simp add: week_key_example ride_fields example_strings)
  have b: "summarize_directory example_files =
       Inr [\<lparr>week = ''2024-W05'', avg_watts = 100, avg_np = 100, avg_noncoasting_watts = 100,
             ride_count = 1, total_kj = 0.2\<rparr>]"
    using weekly_summaries_spec [of "[example_ride]" example_ride 5 example_files] collect_example
    unfolding k1
    by (simp add: week_key_example_ride r example_strings)
  show ?thesis
    using a b collect_example by (simp add: example_strings)
qed

theorem weekly_rows_nonempty_witness:
  "\<exists>rows. weekly_summaries [ride_a, ride_b, ride_c] = Inr rows
     \<and> (\<forall>row \<in> set rows. 1 \<le> ride_count row)
     \<and> length rows = 2 \<and> map week rows = [''2022-W52'', ''2024-W05'']
     \<and> distinct (map week rows)"
proof -
  have "week_key_of ` set [ride_a, ride_b, ride_c] = {(2022, 52), (2024, 5)}"
    by (auto simp: week_key_example)
  then have c: "card (week_key_of ` set [ride_a, ride_b, ride_c]) = 2"
    by simp
  show ?thesis
    using weekly_rows_nonempty [of "[ride_a, ride_b, ride_c]"]
    unfolding example_keys c
    by (simp add: example_strings)
qed


end
